theory Spec2Isabelle
  imports Main "HOL-Library.Sublist"
begin

section \<open>The placeholder engine of templates.py\<close>

text \<open>
  Python strings are modelled as \<^typ>\<open>string\<close>. Both functions of the engine treat every
  character other than the two brackets alike, so nothing depends on the alphabet.
\<close>

abbreviation LB :: char where "LB \<equiv> CHR ''[''"
abbreviation RB :: char where "RB \<equiv> CHR '']''"

subsection \<open>\<^verbatim>\<open>re.findall(r'\[([^\]]+)\]', template)\<close>\<close>

text \<open>
  \<open>match_group\<close> is the part of the pattern after the opening bracket, \<^verbatim>\<open>([^\]]+)\]\<close>,
  anchored at the start of its argument: the greedy run of characters other than \<^verbatim>\<open>]\<close>,
  which has to be non-empty (\<^verbatim>\<open>+\<close>) and has to be followed by \<^verbatim>\<open>]\<close>. The run cannot be
  given back by backtracking, since every character of it is not a \<^verbatim>\<open>]\<close>. The result is
  group 1 and the text after the match.
\<close>

definition match_group :: "string \<Rightarrow> (string \<times> string) option" where
  "match_group cs =
     (let name = takeWhile (\<lambda>x. x \<noteq> RB) cs;
          rest = dropWhile (\<lambda>x. x \<noteq> RB) cs
      in if name \<noteq> [] \<and> rest \<noteq> [] then Some (name, tl rest) else None)"

text \<open>The whole pattern, anchored at the start of the argument.\<close>

fun match_at :: "string \<Rightarrow> (string \<times> string) option" where
  "match_at [] = None"
| "match_at (c # cs) = (if c = LB then match_group cs else None)"

text \<open>
  \<open>findall\<close> scans from the left: where the pattern matches, group 1 is emitted and the
  scan resumes after the match; elsewhere it moves on by one character. A match is never
  empty, so the rule of \<^verbatim>\<open>re\<close> for empty matches plays no part.
\<close>

function findall :: "string \<Rightarrow> string list" where
  "findall [] = []"
| "findall (c # cs) =
     (case match_at (c # cs) of
        Some (name, rest) \<Rightarrow> name # findall rest
      | None \<Rightarrow> findall cs)"
  by pat_completeness auto
termination
proof (relation "measure length")
  show "wf (measure length)" by simp
next
  fix c :: char and cs :: string and x2 :: "string \<times> string" and name rest :: string
  assume m: "match_at (c # cs) = Some x2" and x2: "(name, rest) = x2"
  from m x2 have ne: "dropWhile (\<lambda>x. x \<noteq> RB) cs \<noteq> []"
    and r: "rest = tl (dropWhile (\<lambda>x. x \<noteq> RB) cs)"
    by (auto simp: match_group_def Let_def split: if_splits)
  have "length (dropWhile (\<lambda>x. x \<noteq> RB) cs) \<le> length cs"
    by (rule length_dropWhile_le)
  with ne r have "length rest < length (c # cs)"
    by (cases "dropWhile (\<lambda>x. x \<noteq> RB) cs") auto
  then show "(rest, c # cs) \<in> measure length" by simp
next
  fix c :: char and cs :: string
  show "(cs, c # cs) \<in> measure length" by simp
qed

subsection \<open>\<^verbatim>\<open>extract_placeholders\<close>\<close>

text \<open>
  The loop over the matches, with its two variables \<^verbatim>\<open>seen\<close> and
  \<^verbatim>\<open>unique_placeholders\<close>.
\<close>

fun unique_loop :: "string list \<Rightarrow> string set \<Rightarrow> string list \<Rightarrow> string list" where
  "unique_loop [] seen unique_placeholders = unique_placeholders"
| "unique_loop (p # placeholders) seen unique_placeholders =
     (if p \<notin> seen
      then unique_loop placeholders (insert p seen) (unique_placeholders @ [p])
      else unique_loop placeholders seen unique_placeholders)"

definition extract_placeholders :: "string \<Rightarrow> string list" where
  "extract_placeholders template = unique_loop (findall template) {} []"

subsection \<open>\<^verbatim>\<open>str.replace\<close> and \<^verbatim>\<open>replace_placeholders\<close>\<close>

text \<open>
  \<open>replace_scan\<close> is \<^verbatim>\<open>str.replace(old, new)\<close> for a non-empty \<^verbatim>\<open>old\<close>: the occurrences
  are found from the left and do not overlap, the text put in is not searched again.
\<close>

function replace_scan :: "string \<Rightarrow> string \<Rightarrow> string \<Rightarrow> string" where
  "replace_scan old new [] = []"
| "replace_scan old new (c # cs) =
     (if old \<noteq> [] \<and> prefix old (c # cs)
      then new @ replace_scan old new (drop (length old) (c # cs))
      else c # replace_scan old new cs)"
  by pat_completeness auto
termination
  by (relation "measure (\<lambda>(old, new, s). length s)") auto

text \<open>With an empty \<^verbatim>\<open>old\<close>, Python puts \<^verbatim>\<open>new\<close> before every character and at the end.\<close>

definition str_replace :: "string \<Rightarrow> string \<Rightarrow> string \<Rightarrow> string" where
  "str_replace s old new =
     (if old = [] then new @ concat (map (\<lambda>c. c # new) s) else replace_scan old new s)"

text \<open>The f-string \<^verbatim>\<open>f'[{placeholder}]'\<close>.\<close>

definition token :: "string \<Rightarrow> string" where
  "token placeholder = LB # placeholder @ [RB]"

text \<open>
  A \<^verbatim>\<open>dict\<close> keeps its entries in insertion order and \<^verbatim>\<open>values.items()\<close> yields them in
  that order: the mapping is the list of its items, whose keys are distinct. The loop
  rebinds \<^verbatim>\<open>result\<close> at every entry.
\<close>

fun replace_placeholders :: "string \<Rightarrow> (string \<times> string) list \<Rightarrow> string" where
  "replace_placeholders result [] = result"
| "replace_placeholders result ((placeholder, val) # items) =
     replace_placeholders (str_replace result (token placeholder) val) items"

subsection \<open>\<^verbatim>\<open>get_template\<close>\<close>

text \<open>
  \<^verbatim>\<open>TEMPLATES.get(name, "")\<close>. The registry is static data (four long prompt texts); the
  lookup is modelled over any registry.
\<close>

definition get_template :: "(string \<rightharpoonup> string) \<Rightarrow> string \<Rightarrow> string" where
  "get_template TEMPLATES name = (case TEMPLATES name of Some body \<Rightarrow> body | None \<Rightarrow> [])"

subsection \<open>Vocabulary of the properties\<close>

text \<open>A text without bracket syntax: neither bracket occurs in it.\<close>

definition plain :: "string \<Rightarrow> bool" where
  "plain v \<longleftrightarrow> LB \<notin> set v \<and> RB \<notin> set v"

text \<open>The names the pattern's group can match: at least one character, none of them \<^verbatim>\<open>]\<close>.\<close>

definition valid_name :: "string \<Rightarrow> bool" where
  "valid_name k \<longleftrightarrow> k \<noteq> [] \<and> RB \<notin> set k"

text \<open>
  A body whose brackets are not nested: no placeholder found in it has a \<^verbatim>\<open>[\<close> inside
  its name.
\<close>

definition flat :: "string \<Rightarrow> bool" where
  "flat s \<longleftrightarrow> list_all (\<lambda>n. LB \<notin> set n) (findall s)"

text \<open>
  A value mapping in which every key is such a name and no value has bracket syntax.
\<close>

definition simple_entries :: "(string \<times> string) list \<Rightarrow> bool" where
  "simple_entries values \<longleftrightarrow> list_all (\<lambda>(k, v). valid_name k \<and> plain v) values"

text \<open>The keys of a value mapping.\<close>

definition keys :: "(string \<times> string) list \<Rightarrow> string set" where
  "keys values = fst ` set values"

text \<open>
  The substitution as the specification words it, for comparison with the loop of
  \<open>replace_placeholders\<close>: one pass over the body; at every placeholder the value of its
  name, if the mapping has one, is put in verbatim, otherwise the token stays as it is; the
  scan resumes after the closing bracket, so that no text put in is ever scanned.
\<close>

function substitute_once :: "(string \<rightharpoonup> string) \<Rightarrow> string \<Rightarrow> string" where
  "substitute_once m [] = []"
| "substitute_once m (c # cs) =
     (case match_at (c # cs) of
        Some (name, rest) \<Rightarrow>
          (case m name of Some v \<Rightarrow> v | None \<Rightarrow> token name) @ substitute_once m rest
      | None \<Rightarrow> c # substitute_once m cs)"
  by pat_completeness auto
termination
proof (relation "measure (\<lambda>(m, s). length s)")
  show "wf (measure (\<lambda>(m :: string \<rightharpoonup> string, s :: string). length s))" by simp
next
  fix m :: "string \<rightharpoonup> string" and c :: char and cs :: string
    and x2 :: "string \<times> string" and name rest :: string
  assume m: "match_at (c # cs) = Some x2" and x2: "(name, rest) = x2"
  from m x2 have ne: "dropWhile (\<lambda>x. x \<noteq> RB) cs \<noteq> []"
    and r: "rest = tl (dropWhile (\<lambda>x. x \<noteq> RB) cs)"
    by (auto simp: match_group_def Let_def split: if_splits)
  have "length (dropWhile (\<lambda>x. x \<noteq> RB) cs) \<le> length cs"
    by (rule length_dropWhile_le)
  with ne r have "length rest < length (c # cs)"
    by (cases "dropWhile (\<lambda>x. x \<noteq> RB) cs") auto
  then show "((m, rest), (m, c # cs)) \<in> measure (\<lambda>(m, s). length s)" by simp
next
  fix m :: "string \<rightharpoonup> string" and c :: char and cs :: string
  show "((m, cs), (m, c # cs)) \<in> measure (\<lambda>(m, s). length s)" by simp
qed

section \<open>The scan of \<open>findall\<close>\<close>

lemma match_group_Some_iff:
  "match_group cs = Some (n, r) \<longleftrightarrow> n \<noteq> [] \<and> RB \<notin> set n \<and> cs = n @ RB # r"
proof
  assume "match_group cs = Some (n, r)"
  then have n: "n = takeWhile (\<lambda>x. x \<noteq> RB) cs" and ne: "n \<noteq> []"
    and d: "dropWhile (\<lambda>x. x \<noteq> RB) cs \<noteq> []" and r: "r = tl (dropWhile (\<lambda>x. x \<noteq> RB) cs)"
    by (auto simp: match_group_def Let_def split: if_splits)
  from d have "hd (dropWhile (\<lambda>x. x \<noteq> RB) cs) = RB"
    using hd_dropWhile [of "\<lambda>x. x \<noteq> RB" cs] by simp
  with d r have "dropWhile (\<lambda>x. x \<noteq> RB) cs = RB # r"
    by (cases "dropWhile (\<lambda>x. x \<noteq> RB) cs") auto
  then have "cs = n @ RB # r"
    using takeWhile_dropWhile_id [of "\<lambda>x. x \<noteq> RB" cs] n by simp
  moreover have "RB \<notin> set n"
    using n by (auto dest: set_takeWhileD)
  ultimately show "n \<noteq> [] \<and> RB \<notin> set n \<and> cs = n @ RB # r"
    using ne by simp
next
  assume a: "n \<noteq> [] \<and> RB \<notin> set n \<and> cs = n @ RB # r"
  then have "\<And>x. x \<in> set n \<Longrightarrow> x \<noteq> RB" by auto
  with a have "takeWhile (\<lambda>x. x \<noteq> RB) cs = n" "dropWhile (\<lambda>x. x \<noteq> RB) cs = RB # r"
    by simp_all
  with a show "match_group cs = Some (n, r)"
    by (simp add: match_group_def)
qed

lemma match_group_None_iff:
  "match_group cs = None \<longleftrightarrow> RB \<notin> set cs \<or> (\<exists>r. cs = RB # r)"
proof (cases "RB \<in> set cs")
  case False
  then have "dropWhile (\<lambda>x. x \<noteq> RB) cs = []" by auto
  with False show ?thesis by (simp add: match_group_def)
next
  case True
  then have d: "dropWhile (\<lambda>x. x \<noteq> RB) cs \<noteq> []" by auto
  show ?thesis
  proof (cases cs)
    case Nil
    with True show ?thesis by simp
  next
    case (Cons c cs')
    with d True show ?thesis
      by (auto simp: match_group_def Let_def)
  qed
qed

lemma findall_skip [simp]: "c \<noteq> LB \<Longrightarrow> findall (c # cs) = findall cs"
  by simp

lemma findall_match [simp]: "n \<noteq> [] \<Longrightarrow> RB \<notin> set n \<Longrightarrow> findall (LB # n @ RB # r) = n # findall r"
proof -
  assume "n \<noteq> []" "RB \<notin> set n"
  then have "match_group (n @ RB # r) = Some (n, r)"
    by (simp add: match_group_Some_iff)
  then show ?thesis by simp
qed

lemma findall_fail [simp]: "match_group cs = None \<Longrightarrow> findall (LB # cs) = findall cs"
  by simp

declare findall.simps(2) [simp del]

lemma scan_induct [case_names Nil Skip Match Fail]:
  assumes "P []"
    and "\<And>c cs. c \<noteq> LB \<Longrightarrow> P cs \<Longrightarrow> P (c # cs)"
    and "\<And>n r. n \<noteq> [] \<Longrightarrow> RB \<notin> set n \<Longrightarrow> P r \<Longrightarrow> P (LB # n @ RB # r)"
    and "\<And>cs. match_group cs = None \<Longrightarrow> P cs \<Longrightarrow> P (LB # cs)"
  shows "P s"
proof (induction s rule: findall.induct)
  case 1
  show ?case by (rule assms(1))
next
  case (2 c cs)
  show ?case
  proof (cases "c = LB")
    case False
    then have "match_at (c # cs) = None" by simp
    from "2.IH"(1) [OF this] False show ?thesis by (simp add: assms(2))
  next
    case True
    show ?thesis
    proof (cases "match_group cs")
      case None
      with True have "match_at (c # cs) = None" by simp
      from "2.IH"(1) [OF this] None True show ?thesis by (simp add: assms(4))
    next
      case (Some p)
      obtain n r where p: "p = (n, r)" by (cases p)
      with Some True have m: "match_at (c # cs) = Some (n, r)" by simp
      from Some p have f: "n \<noteq> []" "RB \<notin> set n" "cs = n @ RB # r"
        by (simp_all add: match_group_Some_iff)
      have "P r" using "2.IH"(2) [OF m refl] .
      with f True show ?thesis by (simp add: assms(3))
    qed
  qed
qed

lemma extract_firsts: "extract_placeholders s = unique_loop (findall s) {} []"
  by (simp add: extract_placeholders_def)

lemma findall_names:
  "n \<in> set (findall s) \<Longrightarrow> n \<noteq> [] \<and> RB \<notin> set n \<and> sublist (token n) s"
proof (induction s rule: scan_induct)
  case Nil
  then show ?case by simp
next
  case (Skip c cs)
  then show ?case by (simp add: sublist_Cons_right)
next
  case (Match m r)
  from Match.prems Match.hyps have "n = m \<or> n \<in> set (findall r)"
    by auto
  then show ?case
  proof
    assume nm: "n = m"
    have "sublist (token m) ([] @ token m @ r)" by (rule sublist_appendI)
    then have "sublist (token m) (LB # m @ RB # r)" by (simp add: token_def)
    with nm Match.hyps show ?thesis by simp
  next
    assume "n \<in> set (findall r)"
    with Match.IH have n: "n \<noteq> []" "RB \<notin> set n" and "sublist (token n) r" by simp_all
    then obtain ps ss where "r = ps @ token n @ ss" by (auto simp: sublist_def)
    then have "LB # m @ RB # r = (LB # m @ RB # ps) @ token n @ ss" by simp
    then have "sublist (token n) (LB # m @ RB # r)" unfolding sublist_def by blast
    with n show ?thesis by simp
  qed
next
  case (Fail cs)
  then show ?case by (simp add: sublist_Cons_right)
qed

lemma findall_no_RB: "RB \<notin> set s \<Longrightarrow> findall s = []"
proof (induction s rule: scan_induct)
  case Nil
  show ?case by simp
next
  case (Skip c cs)
  then show ?case by simp
next
  case (Match n r)
  then show ?case by simp
next
  case (Fail cs)
  then show ?case by simp
qed

lemma match_group_None_append:
  "match_group cs = None \<Longrightarrow> RB \<notin> set t \<Longrightarrow> match_group (cs @ t) = None"
  unfolding match_group_None_iff by auto

lemma findall_dangling: "RB \<notin> set t \<Longrightarrow> findall (s @ t) = findall s"
proof (induction s rule: scan_induct)
  case Nil
  then show ?case by (simp add: findall_no_RB)
next
  case (Skip c cs)
  then show ?case by simp
next
  case (Match n r)
  have "findall ((LB # n @ RB # r) @ t) = findall (LB # n @ RB # (r @ t))" by simp
  also have "\<dots> = n # findall (r @ t)" using Match.hyps by (rule findall_match)
  finally show ?case using Match by simp
next
  case (Fail cs)
  then have "match_group (cs @ t) = None" by (simp add: match_group_None_append)
  then have "findall (LB # (cs @ t)) = findall (cs @ t)" by (rule findall_fail)
  with Fail show ?case by simp
qed


section \<open>The loop of \<open>extract_placeholders\<close>\<close>

lemma unique_loop_acc: "unique_loop ms seen acc = acc @ unique_loop ms seen []"
proof (induction ms arbitrary: seen acc)
  case Nil
  show ?case by simp
next
  case (Cons m ms)
  show ?case
  proof (cases "m \<in> seen")
    case True
    with Cons.IH [of seen acc] show ?thesis by simp
  next
    case False
    have "unique_loop (m # ms) seen acc = unique_loop ms (insert m seen) (acc @ [m])"
      using False by simp
    also have "\<dots> = (acc @ [m]) @ unique_loop ms (insert m seen) []"
      by (rule Cons.IH)
    also have "\<dots> = acc @ unique_loop ms (insert m seen) [m]"
      using Cons.IH [of "insert m seen" "[m]"] by simp
    also have "\<dots> = acc @ unique_loop (m # ms) seen []"
      using False by simp
    finally show ?thesis .
  qed
qed

lemma firsts_Cons:
  "unique_loop (m # ms) seen [] =
     (if m \<in> seen then unique_loop ms seen [] else m # unique_loop ms (insert m seen) [])"
  using unique_loop_acc [of ms "insert m seen" "[m]"] by simp

lemma set_firsts: "set (unique_loop ms seen []) = set ms - seen"
proof (induction ms arbitrary: seen)
  case Nil
  show ?case by simp
next
  case (Cons m ms)
  show ?case
    unfolding firsts_Cons using Cons.IH [of seen] Cons.IH [of "insert m seen"] by auto
qed



lemma firsts_filter:
  "unique_loop ms (seen \<union> A) [] = filter (\<lambda>x. x \<notin> A) (unique_loop ms seen [])"
proof (induction ms arbitrary: seen)
  case Nil
  show ?case by simp
next
  case (Cons m ms)
  show ?case
  proof (cases "m \<in> seen")
    case True
    with Cons.IH [of seen] show ?thesis unfolding firsts_Cons by simp
  next
    case False
    show ?thesis
    proof (cases "m \<in> A")
      case True
      have "insert m seen \<union> A = seen \<union> A" using True by auto
      with Cons.IH [of seen] Cons.IH [of "insert m seen"] True False
      show ?thesis unfolding firsts_Cons by simp
    next
      case mA: False
      have "unique_loop ms (insert m (seen \<union> A)) [] =
          filter (\<lambda>x. x \<notin> A) (unique_loop ms (insert m seen) [])"
        using Cons.IH [of "insert m seen"] by simp
      with False mA show ?thesis unfolding firsts_Cons by simp
    qed
  qed
qed



section \<open>Facts about \<open>extract_placeholders\<close>\<close>


lemma extract_set: "set (extract_placeholders s) = set (findall s)"
  by (simp add: extract_placeholders_def set_firsts)

lemma extract_Nil_iff: "extract_placeholders s = [] \<longleftrightarrow> findall s = []"
  using extract_set [of s] by (metis set_empty)


lemma extract_match:
  assumes "n \<noteq> []" and "RB \<notin> set n"
  shows "extract_placeholders (LB # n @ RB # r) = n # filter (\<lambda>x. x \<noteq> n) (extract_placeholders r)"
proof -
  have "extract_placeholders (LB # n @ RB # r) = unique_loop (n # findall r) {} []"
    using assms by (simp add: extract_placeholders_def)
  also have "\<dots> = n # unique_loop (findall r) ({} \<union> {n}) []"
    unfolding firsts_Cons by simp
  also have "unique_loop (findall r) ({} \<union> {n}) [] =
      filter (\<lambda>x. x \<notin> {n}) (unique_loop (findall r) {} [])"
    by (rule firsts_filter)
  finally show ?thesis by (simp add: extract_placeholders_def)
qed

section \<open>Facts about \<open>replace_scan\<close> on tokens\<close>

lemma token_not_Nil: "token k \<noteq> []"
  by (simp add: token_def)

lemma str_replace_token: "str_replace s (token k) v = replace_scan (token k) v s"
  by (simp add: str_replace_def token_not_Nil)

lemma replace_scan_skip:
  "c \<noteq> LB \<Longrightarrow> replace_scan (token k) v (c # cs) = c # replace_scan (token k) v cs"
  by (simp add: token_def)

lemma replace_scan_hit:
  "replace_scan (token k) v (LB # k @ RB # r) = v @ replace_scan (token k) v r"
proof -
  have p: "prefix (token k) (LB # k @ RB # r)"
    by (simp add: token_def)
  have d: "drop (length (token k)) (LB # k @ RB # r) = r"
    by (simp add: token_def)
  show ?thesis
    using p d token_not_Nil [of k] by (simp del: drop_Suc_Cons)
qed

lemma name_unique:
  assumes "RB \<notin> set k" and "RB \<notin> set n" and "k @ RB # x = n @ RB # y"
  shows "k = n"
proof -
  have "\<And>c. c \<in> set k \<Longrightarrow> c \<noteq> RB" using assms(1) by auto
  then have a: "takeWhile (\<lambda>c. c \<noteq> RB) (k @ RB # x) = k" by simp
  have "\<And>c. c \<in> set n \<Longrightarrow> c \<noteq> RB" using assms(2) by auto
  then have b: "takeWhile (\<lambda>c. c \<noteq> RB) (n @ RB # y) = n" by simp
  from a b assms(3) show ?thesis by simp
qed

lemma prefix_token_iff:
  assumes "RB \<notin> set k" and "RB \<notin> set n"
  shows "prefix (token k) (LB # n @ RB # r) \<longleftrightarrow> k = n"
proof
  assume "prefix (token k) (LB # n @ RB # r)"
  then obtain z where "LB # n @ RB # r = token k @ z" by (auto simp: prefix_def)
  then have "k @ RB # z = n @ RB # r" by (simp add: token_def)
  with assms show "k = n" by (rule name_unique)
next
  assume "k = n"
  then show "prefix (token k) (LB # n @ RB # r)" by (simp add: token_def)
qed

lemma replace_scan_miss:
  assumes "RB \<notin> set k" and "RB \<notin> set n" and "n \<noteq> k"
  shows "replace_scan (token k) v (LB # n @ RB # r) = LB # replace_scan (token k) v (n @ RB # r)"
  using prefix_token_iff [OF assms(1,2), of r] assms(3) by simp

lemma replace_scan_plain_prefix:
  "LB \<notin> set p \<Longrightarrow> replace_scan (token k) v (p @ x) = p @ replace_scan (token k) v x"
proof (induction p)
  case Nil
  show ?case by simp
next
  case (Cons c p)
  then have "c \<noteq> LB" by auto
  then have "replace_scan (token k) v (c # (p @ x)) = c # replace_scan (token k) v (p @ x)"
    by (rule replace_scan_skip)
  with Cons show ?case by simp
qed

lemma replace_scan_fail:
  assumes "match_group cs = None" and "valid_name k"
  shows "replace_scan (token k) v (LB # cs) = LB # replace_scan (token k) v cs"
proof -
  have "\<not> prefix (token k) (LB # cs)"
  proof
    assume "prefix (token k) (LB # cs)"
    then obtain z where "LB # cs = token k @ z" by (auto simp: prefix_def)
    then have "cs = k @ RB # z" by (simp add: token_def)
    with assms(2) have "match_group cs = Some (k, z)"
      by (simp add: match_group_Some_iff valid_name_def)
    with assms(1) show False by simp
  qed
  then show ?thesis by simp
qed

declare replace_scan.simps(2) [simp del]

lemma set_replace_scan: "set (replace_scan old new s) \<subseteq> set s \<union> set new"
proof (induction old new s rule: replace_scan.induct)
  case (1 old new)
  show ?case by simp
next
  case (2 old new c cs)
  show ?case
  proof (cases "old \<noteq> [] \<and> prefix old (c # cs)")
    case True
    have "set (drop (length old) (c # cs)) \<subseteq> set (c # cs)" by (rule set_drop_subset)
    with "2.IH"(1) [OF True] True show ?thesis
      by (auto simp: replace_scan.simps(2))
  next
    case False
    with "2.IH"(2) [OF False] show ?thesis
      by (auto simp: replace_scan.simps(2))
  qed
qed

lemma match_group_None_replace:
  assumes "match_group cs = None" and "RB \<notin> set v"
  shows "match_group (replace_scan (token k) v cs) = None"
proof -
  from assms(1) have "RB \<notin> set cs \<or> (\<exists>r. cs = RB # r)" by (simp add: match_group_None_iff)
  then show ?thesis
  proof
    assume "RB \<notin> set cs"
    with assms(2) set_replace_scan [of "token k" v cs]
    have "RB \<notin> set (replace_scan (token k) v cs)" by auto
    then show ?thesis by (simp add: match_group_None_iff)
  next
    assume "\<exists>r. cs = RB # r"
    then obtain r where "cs = RB # r" ..
    then have "replace_scan (token k) v cs = RB # replace_scan (token k) v r"
      by (simp add: replace_scan_skip)
    then show ?thesis by (simp add: match_group_None_iff)
  qed
qed

lemma findall_plain_prefix: "LB \<notin> set p \<Longrightarrow> findall (p @ x) = findall x"
  by (induction p) auto

lemma flat_Nil: "flat []"
  by (simp add: flat_def)

lemma flat_skip: "c \<noteq> LB \<Longrightarrow> flat (c # cs) \<longleftrightarrow> flat cs"
  by (simp add: flat_def)

lemma flat_match:
  "n \<noteq> [] \<Longrightarrow> RB \<notin> set n \<Longrightarrow> flat (LB # n @ RB # r) \<longleftrightarrow> LB \<notin> set n \<and> flat r"
  by (simp add: flat_def)

lemma flat_fail: "match_group cs = None \<Longrightarrow> flat (LB # cs) \<longleftrightarrow> flat cs"
  by (simp add: flat_def)

lemma replace_scan_other:
  assumes "n \<noteq> []" and "RB \<notin> set n" and "LB \<notin> set n" and "valid_name k" and "n \<noteq> k"
  shows "replace_scan (token k) v (LB # n @ RB # r) = LB # n @ RB # replace_scan (token k) v r"
proof -
  from assms have "replace_scan (token k) v (LB # n @ RB # r) =
      LB # replace_scan (token k) v (n @ RB # r)"
    by (simp add: replace_scan_miss valid_name_def)
  also have "replace_scan (token k) v (n @ RB # r) = n @ replace_scan (token k) v (RB # r)"
    using assms(3) by (rule replace_scan_plain_prefix)
  also have "replace_scan (token k) v (RB # r) = RB # replace_scan (token k) v r"
    by (simp add: replace_scan_skip)
  finally show ?thesis by simp
qed

lemma findall_replace_scan:
  assumes "plain v" and "valid_name k"
  shows "flat s \<Longrightarrow> findall (replace_scan (token k) v s) = filter (\<lambda>n. n \<noteq> k) (findall s)"
proof (induction s rule: scan_induct)
  case Nil
  show ?case by simp
next
  case (Skip c cs)
  then show ?case by (simp add: replace_scan_skip flat_skip)
next
  case (Match n r)
  from Match.prems Match.hyps have nf: "LB \<notin> set n" and fr: "flat r"
    by (simp_all add: flat_match)
  show ?case
  proof (cases "n = k")
    case True
    have "findall (replace_scan (token k) v (LB # k @ RB # r)) =
        findall (v @ replace_scan (token k) v r)"
      by (simp only: replace_scan_hit)
    also have "\<dots> = findall (replace_scan (token k) v r)"
      using assms(1) by (simp add: findall_plain_prefix plain_def)
    finally show ?thesis using True Match.IH [OF fr] Match.hyps by simp
  next
    case False
    have "replace_scan (token k) v (LB # n @ RB # r) = LB # n @ RB # replace_scan (token k) v r"
      using Match.hyps nf assms(2) False by (rule replace_scan_other)
    with False Match.IH [OF fr] Match.hyps show ?thesis by simp
  qed
next
  case (Fail cs)
  then have fc: "flat cs" by (simp add: flat_fail)
  have "match_group (replace_scan (token k) v cs) = None"
    using Fail.hyps assms(1) by (simp add: match_group_None_replace plain_def)
  then have "findall (LB # replace_scan (token k) v cs) = findall (replace_scan (token k) v cs)"
    by (rule findall_fail)
  with Fail.hyps Fail.IH [OF fc] assms(2) show ?case
    by (simp add: replace_scan_fail)
qed

lemma flat_filter: "flat s \<Longrightarrow> findall s' = filter P (findall s) \<Longrightarrow> flat s'"
  by (simp add: flat_def list_all_iff)

lemma replace_scan_absent:
  assumes "valid_name k"
  shows "flat s \<Longrightarrow> k \<notin> set (findall s) \<Longrightarrow> replace_scan (token k) v s = s"
proof (induction s rule: scan_induct)
  case Nil
  show ?case by simp
next
  case (Skip c cs)
  then show ?case by (simp add: replace_scan_skip flat_skip)
next
  case (Match n r)
  from Match.prems(1) Match.hyps have nf: "LB \<notin> set n" and fr: "flat r"
    by (simp_all add: flat_match)
  from Match.prems(2) Match.hyps have nk: "n \<noteq> k" and kr: "k \<notin> set (findall r)"
    by auto
  have "replace_scan (token k) v (LB # n @ RB # r) = LB # n @ RB # replace_scan (token k) v r"
    using Match.hyps nf assms nk by (rule replace_scan_other)
  with Match.IH [OF fr kr] show ?case by simp
next
  case (Fail cs)
  then have fc: "flat cs" and kc: "k \<notin> set (findall cs)" by (simp_all add: flat_fail)
  with Fail.hyps Fail.IH assms show ?case by (simp add: replace_scan_fail)
qed

section \<open>Facts about \<open>replace_placeholders\<close>\<close>

lemma keys_Cons: "keys ((k, v) # vs) = insert k (keys vs)"
  by (simp add: keys_def)

lemma simple_entries_Cons:
  "simple_entries ((k, v) # vs) \<longleftrightarrow> valid_name k \<and> plain v \<and> simple_entries vs"
  by (simp add: simple_entries_def)

lemma replace_placeholders_append:
  "replace_placeholders s (xs @ ys) = replace_placeholders (replace_placeholders s xs) ys"
  by (induction xs arbitrary: s) auto

lemma findall_replace_placeholders:
  "flat s \<Longrightarrow> simple_entries vs \<Longrightarrow>
     findall (replace_placeholders s vs) = filter (\<lambda>n. n \<notin> keys vs) (findall s)"
proof (induction vs arbitrary: s)
  case Nil
  show ?case by (simp add: keys_def)
next
  case (Cons e vs)
  obtain k v where e: "e = (k, v)" by (cases e)
  from Cons.prems(2) e have k: "valid_name k" and v: "plain v" and vs: "simple_entries vs"
    by (simp_all add: simple_entries_Cons)
  let ?s1 = "replace_scan (token k) v s"
  have f1: "findall ?s1 = filter (\<lambda>n. n \<noteq> k) (findall s)"
    using v k Cons.prems(1) by (rule findall_replace_scan)
  with Cons.prems(1) have "flat ?s1" by (rule flat_filter)
  then have "findall (replace_placeholders ?s1 vs) = filter (\<lambda>n. n \<notin> keys vs) (findall ?s1)"
    using vs by (rule Cons.IH)
  also have "\<dots> = filter (\<lambda>n. n \<notin> keys ((k, v) # vs)) (findall s)"
    unfolding f1 keys_Cons by (simp add: conj_commute)
  finally show ?case by (simp add: e str_replace_token)
qed

lemma flat_replace_placeholders:
  "flat s \<Longrightarrow> simple_entries vs \<Longrightarrow> flat (replace_placeholders s vs)"
  using findall_replace_placeholders flat_filter by blast

lemma replace_placeholders_absent:
  "flat s \<Longrightarrow> list_all valid_name (map fst vs) \<Longrightarrow> keys vs \<inter> set (findall s) = {} \<Longrightarrow>
     replace_placeholders s vs = s"
proof (induction vs)
  case Nil
  show ?case by simp
next
  case (Cons e vs)
  obtain k v where e: "e = (k, v)" by (cases e)
  from Cons.prems(2) e have k: "valid_name k" and vs: "list_all valid_name (map fst vs)"
    by simp_all
  from Cons.prems(3) e have kn: "k \<notin> set (findall s)" and d: "keys vs \<inter> set (findall s) = {}"
    by (auto simp: keys_Cons)
  have "replace_scan (token k) v s = s"
    using k Cons.prems(1) kn by (rule replace_scan_absent)
  with Cons.IH [OF Cons.prems(1) vs d] show ?case by (simp add: e str_replace_token)
qed

lemma simple_entries_keys: "simple_entries vs \<Longrightarrow> list_all valid_name (map fst vs)"
  by (induction vs) (auto simp: simple_entries_def)

lemma extracted_entries_simple:
  assumes "keys vs \<subseteq> set (findall s)" and "list_all plain (map snd vs)"
  shows "simple_entries vs"
proof -
  have "valid_name k \<and> plain v" if "(k, v) \<in> set vs" for k v
  proof -
    from that have "k \<in> keys vs" by (force simp: keys_def)
    with assms(1) have "k \<in> set (findall s)" by auto
    then have "valid_name k" using findall_names [of k s] by (simp add: valid_name_def)
    moreover from that assms(2) have "plain v" by (force simp: list_all_iff)
    ultimately show ?thesis by simp
  qed
  then show ?thesis by (auto simp: simple_entries_def list_all_iff)
qed

section \<open>The loop against the single pass\<close>

lemma substitute_once_skip [simp]:
  "c \<noteq> LB \<Longrightarrow> substitute_once m (c # cs) = c # substitute_once m cs"
  by simp

lemma substitute_once_match [simp]:
  "n \<noteq> [] \<Longrightarrow> RB \<notin> set n \<Longrightarrow>
     substitute_once m (LB # n @ RB # r) =
       (case m n of Some v \<Rightarrow> v | None \<Rightarrow> token n) @ substitute_once m r"
proof -
  assume "n \<noteq> []" "RB \<notin> set n"
  then have "match_group (n @ RB # r) = Some (n, r)"
    by (simp add: match_group_Some_iff)
  then show ?thesis by simp
qed

lemma substitute_once_fail [simp]:
  "match_group cs = None \<Longrightarrow> substitute_once m (LB # cs) = LB # substitute_once m cs"
  by simp

declare substitute_once.simps(2) [simp del]

lemma substitute_once_empty: "substitute_once Map.empty s = s"
  by (induction s rule: scan_induct) (simp_all add: token_def)

lemma substitute_once_plain_prefix:
  "LB \<notin> set p \<Longrightarrow> substitute_once m (p @ x) = p @ substitute_once m x"
  by (induction p) auto

lemma substitute_once_replace_scan:
  assumes "plain v" and "valid_name k" and "m k = None"
  shows "flat s \<Longrightarrow>
    substitute_once m (replace_scan (token k) v s) = substitute_once (m(k \<mapsto> v)) s"
proof (induction s rule: scan_induct)
  case Nil
  show ?case by simp
next
  case (Skip c cs)
  then show ?case by (simp add: replace_scan_skip flat_skip)
next
  case (Match n r)
  from Match.prems Match.hyps have nf: "LB \<notin> set n" and fr: "flat r"
    by (simp_all add: flat_match)
  show ?case
  proof (cases "n = k")
    case True
    have "substitute_once m (replace_scan (token k) v (LB # k @ RB # r)) =
        substitute_once m (v @ replace_scan (token k) v r)"
      by (simp only: replace_scan_hit)
    also have "\<dots> = v @ substitute_once m (replace_scan (token k) v r)"
      using assms(1) by (simp add: substitute_once_plain_prefix plain_def)
    finally show ?thesis using True Match.IH [OF fr] Match.hyps by simp
  next
    case False
    have "replace_scan (token k) v (LB # n @ RB # r) = LB # n @ RB # replace_scan (token k) v r"
      using Match.hyps nf assms(2) False by (rule replace_scan_other)
    with False Match.IH [OF fr] Match.hyps show ?thesis by simp
  qed
next
  case (Fail cs)
  then have fc: "flat cs" by (simp add: flat_fail)
  have "match_group (replace_scan (token k) v cs) = None"
    using Fail.hyps assms(1) by (simp add: match_group_None_replace plain_def)
  then have "substitute_once m (LB # replace_scan (token k) v cs) =
      LB # substitute_once m (replace_scan (token k) v cs)"
    by (rule substitute_once_fail)
  with Fail.hyps Fail.IH [OF fc] assms(2) show ?case
    by (simp add: replace_scan_fail)
qed

lemma replace_placeholders_single_pass:
  "flat s \<Longrightarrow> simple_entries vs \<Longrightarrow> distinct (map fst vs) \<Longrightarrow>
     replace_placeholders s vs = substitute_once (map_of vs) s"
proof (induction vs arbitrary: s)
  case Nil
  show ?case by (simp add: substitute_once_empty)
next
  case (Cons e vs)
  obtain k v where e: "e = (k, v)" by (cases e)
  from Cons.prems(2) e have k: "valid_name k" and v: "plain v" and vs: "simple_entries vs"
    by (simp_all add: simple_entries_Cons)
  from Cons.prems(3) e have d: "distinct (map fst vs)" and kn: "k \<notin> fst ` set vs"
    by simp_all
  from kn have none: "map_of vs k = None" by (simp add: map_of_eq_None_iff)
  let ?s1 = "replace_scan (token k) v s"
  have f1: "findall ?s1 = filter (\<lambda>n. n \<noteq> k) (findall s)"
    using v k Cons.prems(1) by (rule findall_replace_scan)
  with Cons.prems(1) have "flat ?s1" by (rule flat_filter)
  then have "replace_placeholders ?s1 vs = substitute_once (map_of vs) ?s1"
    using vs d by (rule Cons.IH)
  also have "\<dots> = substitute_once ((map_of vs)(k \<mapsto> v)) s"
    using v k none Cons.prems(1) by (rule substitute_once_replace_scan)
  finally show ?case by (simp add: e str_replace_token fun_upd_def)
qed

lemma simple_entries_set: "set vs' = set vs \<Longrightarrow> simple_entries vs \<Longrightarrow> simple_entries vs'"
  by (simp add: simple_entries_def list_all_iff)

section \<open>Tokens of bracket-free names survive\<close>








section \<open>The claims\<close>

text \<open>
  C1, as amended. The loop of \<open>replace_placeholders\<close> applies the entries one after
  another to the running result, so that a value put in by one entry is searched by the
  entries after it. For a body whose brackets are not nested (no placeholder found in it
  has a \<^verbatim>\<open>[\<close> in its name) and a mapping whose keys are names (non-empty, without \<^verbatim>\<open>]\<close>)
  and whose values contain no bracket, the loop agrees with the single pass
  \<open>substitute_once\<close>, which puts every value in verbatim and never scans it; hence the
  result is the same for every order of the entries.
\<close>

theorem replace_single_pass_order:
  assumes "flat body" and "simple_entries values" and "distinct (map fst values)"
  shows "replace_placeholders body values = substitute_once (map_of values) body
    \<and> (distinct (map fst values') \<and> set values' = set values \<longrightarrow>
         replace_placeholders body values' = replace_placeholders body values)"
proof -
  have a: "replace_placeholders body values = substitute_once (map_of values) body"
    using assms by (rule replace_placeholders_single_pass)
  have b: "distinct (map fst values') \<and> set values' = set values \<longrightarrow>
         replace_placeholders body values' = replace_placeholders body values"
  proof
    assume h: "distinct (map fst values') \<and> set values' = set values"
    then have "simple_entries values'" using assms(2) by (simp add: simple_entries_set)
    with assms(1) h have "replace_placeholders body values' = substitute_once (map_of values') body"
      by (simp add: replace_placeholders_single_pass)
    moreover have "map_of values' = map_of values"
      using h assms(3) by (simp add: map_of_inject_set)
    ultimately show "replace_placeholders body values' = replace_placeholders body values"
      using a by simp
  qed
  show ?thesis by (rule conjI [OF a b])
qed

theorem replace_single_pass_order_witness:
  "flat ''Vote [Name] of [Party]: [Name]''
   \<and> simple_entries [(''Name'', ''Anu''), (''Party'', ''LDF'')]
   \<and> distinct (map fst [(''Name'', ''Anu''), (''Party'', ''LDF'')])
   \<and> distinct (map fst [(''Party'', ''LDF''), (''Name'', ''Anu'')])
   \<and> set [(''Party'', ''LDF''), (''Name'', ''Anu'')] = set [(''Name'', ''Anu''), (''Party'', ''LDF'')]
   \<and> replace_placeholders ''Vote [Name] of [Party]: [Name]'' [(''Name'', ''Anu''), (''Party'', ''LDF'')]
       = substitute_once (map_of [(''Name'', ''Anu''), (''Party'', ''LDF'')]) ''Vote [Name] of [Party]: [Name]''
   \<and> replace_placeholders ''Vote [Name] of [Party]: [Name]'' [(''Party'', ''LDF''), (''Name'', ''Anu'')]
       = replace_placeholders ''Vote [Name] of [Party]: [Name]'' [(''Name'', ''Anu''), (''Party'', ''LDF'')]"
proof -
  have h1: "flat ''Vote [Name] of [Party]: [Name]''" by code_simp
  have h2: "simple_entries [(''Name'', ''Anu''), (''Party'', ''LDF'')]" by code_simp
  have h3: "distinct (map fst [(''Name'', ''Anu''), (''Party'', ''LDF'')])" by simp
  have h4: "distinct (map fst [(''Party'', ''LDF''), (''Name'', ''Anu'')])" by simp
  have h5: "set [(''Party'', ''LDF''), (''Name'', ''Anu'')] = set [(''Name'', ''Anu''), (''Party'', ''LDF'')]"
    by (simp add: insert_commute)
  from replace_single_pass_order [OF h1 h2 h3, of "[(''Party'', ''LDF''), (''Name'', ''Anu'')]"]
    h1 h2 h3 h4 h5
  show ?thesis by blast
qed

text \<open>
  C1 as stated fails when a value has bracket syntax: the value \<^verbatim>\<open>[b]\<close> put in for \<^verbatim>\<open>a\<close> is
  replaced by the entry for \<^verbatim>\<open>b\<close> when that entry comes later, and is left when it came
  before. It fails on nested brackets too, with values free of brackets.
\<close>

theorem order_counterexample:
  "replace_placeholders ''[a]'' [(''a'', ''[b]''), (''b'', ''x'')] = ''x''
   \<and> replace_placeholders ''[a]'' [(''b'', ''x''), (''a'', ''[b]'')] = ''[b]''
   \<and> replace_placeholders ''[a]'' [(''a'', ''[b]''), (''b'', ''x'')] \<noteq>
       replace_placeholders ''[a]'' [(''b'', ''x''), (''a'', ''[b]'')]
   \<and> replace_placeholders ''[[a]]'' [(''a'', ''b''), (''b'', ''c'')] = ''c''
   \<and> replace_placeholders ''[[a]]'' [(''b'', ''c''), (''a'', ''b'')] = ''[b]''"
  by code_simp

text \<open>
  C2, as amended. The scan of \<open>extract_placeholders\<close> goes from the left. A character
  other than \<^verbatim>\<open>[\<close> is passed over. A \<^verbatim>\<open>[\<close> is paired with the first \<^verbatim>\<open>]\<close> after it,
  provided that at least one character stands between them: the enclosed text, taken
  verbatim even if it has a \<^verbatim>\<open>[\<close> in it, is the name, it is put first in the result, and
  the scan resumes after the \<^verbatim>\<open>]\<close> (later duplicates of the name are dropped). A
  \<^verbatim>\<open>[\<close> directly followed by \<^verbatim>\<open>]\<close> is no placeholder and is skipped. An input without
  \<^verbatim>\<open>]\<close> yields the empty list, and a trailing \<^verbatim>\<open>[\<close> with no \<^verbatim>\<open>]\<close> after it
  contributes nothing.
\<close>

theorem extract_scan_rules:
  "(c \<noteq> LB \<longrightarrow> extract_placeholders (c # cs) = extract_placeholders cs)
   \<and> (n \<noteq> [] \<and> RB \<notin> set n \<longrightarrow>
        extract_placeholders (LB # n @ RB # r) =
          n # filter (\<lambda>x. x \<noteq> n) (extract_placeholders r))
   \<and> extract_placeholders (LB # RB # r) = extract_placeholders r
   \<and> (RB \<notin> set s \<longrightarrow> extract_placeholders s = [])
   \<and> (RB \<notin> set t \<longrightarrow> extract_placeholders (pre @ LB # t) = extract_placeholders pre)"
proof -
  have a: "c \<noteq> LB \<longrightarrow> extract_placeholders (c # cs) = extract_placeholders cs"
    by (simp add: extract_placeholders_def)
  have b: "n \<noteq> [] \<and> RB \<notin> set n \<longrightarrow>
        extract_placeholders (LB # n @ RB # r) =
          n # filter (\<lambda>x. x \<noteq> n) (extract_placeholders r)"
    using extract_match [of n r] by blast
  have "match_group (RB # r) = None" by (simp add: match_group_None_iff)
  then have "findall (LB # RB # r) = findall r" by simp
  then have c: "extract_placeholders (LB # RB # r) = extract_placeholders r"
    by (simp add: extract_placeholders_def)
  have d: "RB \<notin> set s \<longrightarrow> extract_placeholders s = []"
    by (simp add: extract_placeholders_def findall_no_RB)
  have e: "RB \<notin> set t \<longrightarrow> extract_placeholders (pre @ LB # t) = extract_placeholders pre"
  proof
    assume "RB \<notin> set t"
    then have "RB \<notin> set (LB # t)" by simp
    then have "findall (pre @ LB # t) = findall pre" by (rule findall_dangling)
    then show "extract_placeholders (pre @ LB # t) = extract_placeholders pre"
      by (simp add: extract_placeholders_def)
  qed
  show ?thesis
    by (rule conjI [OF a conjI [OF b conjI [OF c conjI [OF d e]]]])
qed

theorem extract_scan_rules_witness:
  "CHR ''x'' \<noteq> LB
   \<and> extract_placeholders (CHR ''x'' # ''[a]'') = extract_placeholders ''[a]''
   \<and> ''a[b'' \<noteq> [] \<and> RB \<notin> set ''a[b''
   \<and> extract_placeholders (LB # ''a[b'' @ RB # ''[c]'') =
        ''a[b'' # filter (\<lambda>x. x \<noteq> ''a[b'') (extract_placeholders ''[c]'')
   \<and> RB \<notin> set ''no [pair''
   \<and> extract_placeholders ''no [pair'' = []
   \<and> RB \<notin> set ''tail''
   \<and> extract_placeholders (''[a] '' @ LB # ''tail'') = extract_placeholders ''[a] ''"
proof -
  have h1: "CHR ''x'' \<noteq> LB" by simp
  have h2: "''a[b'' \<noteq> [] \<and> RB \<notin> set ''a[b''" by simp
  have h3: "RB \<notin> set ''no [pair''" by simp
  have h4: "RB \<notin> set ''tail''" by simp
  from extract_scan_rules [of "CHR ''x''" "''[a]''" "''a[b''" "''[c]''" "''no [pair''" "''tail''" "''[a] ''"]
    h1 h2 h3 h4
  show ?thesis by blast
qed

text \<open>
  C2 as stated pairs every \<^verbatim>\<open>[\<close> with the first \<^verbatim>\<open>]\<close> after it and takes the enclosed text
  as the name: for the input \<^verbatim>\<open>[]\<close> that is the empty name. The pattern asks for one
  character at least, and the result is empty.
\<close>

theorem empty_pair_counterexample:
  "extract_placeholders ''[]'' = [] \<and> extract_placeholders ''[]'' \<noteq> [[]]"
  by code_simp



text \<open>
  C4, as amended. Let the brackets of the body be not nested (no placeholder found in it
  has a \<^verbatim>\<open>[\<close> in its name), let the mapping have an entry for exactly the names extracted
  from the body, and let no value contain a bracket. Then \<open>extract_placeholders\<close> of the
  substituted body is empty. The values need not be distinct nor non-empty.
\<close>

theorem extract_after_complete_replace:
  assumes "flat body"
    and "keys values = set (extract_placeholders body)"
    and "list_all plain (map snd values)"
  shows "extract_placeholders (replace_placeholders body values) = []"
proof -
  from assms(2) have k: "keys values = set (findall body)" by (simp add: extract_set)
  then have "simple_entries values"
    using assms(3) extracted_entries_simple [of "values" body] by simp
  with assms(1) have "findall (replace_placeholders body values) =
      filter (\<lambda>n. n \<notin> keys values) (findall body)"
    by (rule findall_replace_placeholders)
  also have "\<dots> = []" unfolding k by simp
  finally show ?thesis by (simp add: extract_placeholders_def)
qed

theorem extract_after_complete_replace_witness:
  "flat ''Vote [Name] of [Party]: [Name]''
   \<and> keys [(''Name'', ''Anu''), (''Party'', ''LDF'')] =
       set (extract_placeholders ''Vote [Name] of [Party]: [Name]'')
   \<and> list_all plain (map snd [(''Name'', ''Anu''), (''Party'', ''LDF'')])
   \<and> extract_placeholders (replace_placeholders ''Vote [Name] of [Party]: [Name]''
        [(''Name'', ''Anu''), (''Party'', ''LDF'')]) = []"
proof -
  have h1: "flat ''Vote [Name] of [Party]: [Name]''" by code_simp
  have h2: "keys [(''Name'', ''Anu''), (''Party'', ''LDF'')] =
       set (extract_placeholders ''Vote [Name] of [Party]: [Name]'')" by code_simp
  have h3: "list_all plain (map snd [(''Name'', ''Anu''), (''Party'', ''LDF'')])" by code_simp
  from extract_after_complete_replace [OF h1 h2 h3] h1 h2 h3 show ?thesis by blast
qed

text \<open>
  C4 as stated fails on a body with nested brackets: the names extracted from
  \<^verbatim>\<open>[a][x[a]]\<close> are \<^verbatim>\<open>a\<close> and \<^verbatim>\<open>x[a\<close>; with the values \<^verbatim>\<open>p\<close> and \<^verbatim>\<open>q\<close> for them, non-empty,
  distinct and without brackets, the result is \<^verbatim>\<open>p[xp]\<close>, in which \<^verbatim>\<open>[xp]\<close> is a token.
\<close>

theorem leftover_token_counterexample:
  "extract_placeholders ''[a][x[a]]'' = [''a'', ''x[a'']
   \<and> replace_placeholders ''[a][x[a]]'' [(''a'', ''p''), (''x[a'', ''q'')] = ''p[xp]''
   \<and> extract_placeholders
        (replace_placeholders ''[a][x[a]]'' [(''a'', ''p''), (''x[a'', ''q'')]) = [''xp'']
   \<and> extract_placeholders
        (replace_placeholders ''[a][x[a]]'' [(''a'', ''p''), (''x[a'', ''q'')]) \<noteq> []"
  by code_simp

text \<open>
  C5, as amended. For a body whose brackets are not nested and a mapping whose keys are
  names (non-empty, without \<^verbatim>\<open>]\<close>) and whose values contain no bracket, running
  \<open>replace_placeholders\<close> again with the same mapping on its own output changes nothing.
\<close>

theorem replace_twice:
  assumes "flat body" and "simple_entries values"
  shows "replace_placeholders (replace_placeholders body values) values =
    replace_placeholders body values"
proof -
  let ?s1 = "replace_placeholders body values"
  have f: "findall ?s1 = filter (\<lambda>n. n \<notin> keys values) (findall body)"
    using assms by (rule findall_replace_placeholders)
  have "flat ?s1" using assms by (rule flat_replace_placeholders)
  moreover have "list_all valid_name (map fst values)"
    using assms(2) by (rule simple_entries_keys)
  moreover have "keys values \<inter> set (findall ?s1) = {}" unfolding f by auto
  ultimately show ?thesis by (rule replace_placeholders_absent)
qed

theorem replace_twice_witness:
  "flat ''Vote [Name] of [Party]: [Name]''
   \<and> simple_entries [(''Name'', ''Anu'')]
   \<and> replace_placeholders (replace_placeholders ''Vote [Name] of [Party]: [Name]''
        [(''Name'', ''Anu'')]) [(''Name'', ''Anu'')] =
      replace_placeholders ''Vote [Name] of [Party]: [Name]'' [(''Name'', ''Anu'')]"
proof -
  have h1: "flat ''Vote [Name] of [Party]: [Name]''" by code_simp
  have h2: "simple_entries [(''Name'', ''Anu'')]" by code_simp
  from replace_twice [OF h1 h2] h1 h2 show ?thesis by blast
qed

text \<open>
  C5 as stated fails when a value has bracket syntax: every run puts in new tokens for
  the next run to replace.
\<close>

theorem replace_twice_counterexample:
  "replace_placeholders ''[a]'' [(''a'', ''[a][a]'')] = ''[a][a]''
   \<and> replace_placeholders (replace_placeholders ''[a]'' [(''a'', ''[a][a]'')])
        [(''a'', ''[a][a]'')] = ''[a][a][a][a]''
   \<and> replace_placeholders (replace_placeholders ''[a]'' [(''a'', ''[a][a]'')])
        [(''a'', ''[a][a]'')] \<noteq> replace_placeholders ''[a]'' [(''a'', ''[a][a]'')]"
  by code_simp

text \<open>
  C6, as amended. Let the brackets of the body be not nested, and let the entries that
  are processed before the extra one have names as keys and values without brackets. An
  extra entry whose key is a name (non-empty, without \<^verbatim>\<open>]\<close>) that is not among the
  placeholders of the body changes nothing, wherever it stands in the mapping: the result
  is the one obtained without it.
\<close>

theorem unused_entry_ignored:
  assumes "flat body" and "simple_entries before" and "valid_name k"
    and "k \<notin> set (extract_placeholders body)"
  shows "replace_placeholders body (before @ (k, v) # after) =
    replace_placeholders body (before @ after)"
proof -
  let ?s1 = "replace_placeholders body before"
  have f: "findall ?s1 = filter (\<lambda>n. n \<notin> keys before) (findall body)"
    using assms(1,2) by (rule findall_replace_placeholders)
  have fl: "flat ?s1" using assms(1,2) by (rule flat_replace_placeholders)
  from assms(4) have "k \<notin> set (findall body)" by (simp add: extract_set)
  then have "k \<notin> set (findall ?s1)" unfolding f by simp
  with assms(3) fl have "replace_scan (token k) v ?s1 = ?s1" by (rule replace_scan_absent)
  then have "replace_placeholders ?s1 ((k, v) # after) = replace_placeholders ?s1 after"
    by (simp add: str_replace_token)
  then show ?thesis by (simp only: replace_placeholders_append)
qed

theorem unused_entry_ignored_witness:
  "flat ''Vote [Name] of [Party]''
   \<and> simple_entries [(''Name'', ''Anu'')]
   \<and> valid_name ''Place''
   \<and> ''Place'' \<notin> set (extract_placeholders ''Vote [Name] of [Party]'')
   \<and> replace_placeholders ''Vote [Name] of [Party]''
        ([(''Name'', ''Anu'')] @ (''Place'', ''[Name]'') # [(''Party'', ''LDF'')]) =
      replace_placeholders ''Vote [Name] of [Party]''
        ([(''Name'', ''Anu'')] @ [(''Party'', ''LDF'')])"
proof -
  have h1: "flat ''Vote [Name] of [Party]''" by code_simp
  have h2: "simple_entries [(''Name'', ''Anu'')]" by code_simp
  have h3: "valid_name ''Place''" by code_simp
  have h4: "''Place'' \<notin> set (extract_placeholders ''Vote [Name] of [Party]'')" by code_simp
  from unused_entry_ignored [OF h1 h2 h3 h4] h1 h2 h3 h4 show ?thesis by blast
qed

text \<open>
  C6 as stated fails when an earlier value brings the token of the extra entry into the
  text: \<^verbatim>\<open>k\<close> is absent from the body \<^verbatim>\<open>[a]\<close>, and yet the entry for \<^verbatim>\<open>k\<close> changes the
  result.
\<close>

theorem unused_entry_counterexample:
  "''k'' \<notin> set (extract_placeholders ''[a]'')
   \<and> \<not> sublist (token ''k'') ''[a]''
   \<and> replace_placeholders ''[a]'' [(''a'', ''[k]'')] = ''[k]''
   \<and> replace_placeholders ''[a]'' ([(''a'', ''[k]'')] @ [(''k'', ''z'')]) = ''z''
   \<and> replace_placeholders ''[a]'' ([(''a'', ''[k]'')] @ [(''k'', ''z'')]) \<noteq>
       replace_placeholders ''[a]'' [(''a'', ''[k]'')]"
  by code_simp




text \<open>
  C8. With the empty value mapping \<open>replace_placeholders\<close> returns the body unchanged.
  The function is total: it has no error branch and returns a string on every input.
\<close>

theorem replace_empty_mapping: "replace_placeholders body [] = body"
  by simp

text \<open>
  C9. For a name that is not registered in the catalog, \<open>get_template\<close> returns the
  empty string, and \<open>extract_placeholders\<close> of that result is the empty list.
\<close>

theorem get_unknown_template:
  "name \<notin> dom TEMPLATES \<Longrightarrow>
     get_template TEMPLATES name = [] \<and> extract_placeholders (get_template TEMPLATES name) = []"
proof -
  assume "name \<notin> dom TEMPLATES"
  then have "TEMPLATES name = None" by auto
  then have "get_template TEMPLATES name = []" by (simp add: get_template_def)
  then show ?thesis by (simp add: extract_placeholders_def)
qed

theorem get_unknown_template_witness:
  "''nonexistent-template'' \<notin> dom [''Male Candidate - Regular Photo'' \<mapsto> ''Name: [Candidate Name]'']
   \<and> get_template [''Male Candidate - Regular Photo'' \<mapsto> ''Name: [Candidate Name]'']
        ''nonexistent-template'' = []
   \<and> extract_placeholders (get_template
        [''Male Candidate - Regular Photo'' \<mapsto> ''Name: [Candidate Name]''] ''nonexistent-template'') = []"
proof -
  have h: "''nonexistent-template'' \<notin> dom [''Male Candidate - Regular Photo'' \<mapsto> ''Name: [Candidate Name]'']"
    by simp
  from get_unknown_template [OF h] h show ?thesis by blast
qed

text \<open>
  C10. Every name returned by \<open>extract_placeholders\<close> is non-empty, has no \<^verbatim>\<open>]\<close> in it,
  and its token, the name between \<^verbatim>\<open>[\<close> and \<^verbatim>\<open>]\<close>, occurs in the input as a substring.
  The empty name is never returned, and a leading pair \<^verbatim>\<open>[]\<close> is skipped.
\<close>

theorem extracted_names_wellformed:
  "(n \<in> set (extract_placeholders s) \<longrightarrow> n \<noteq> [] \<and> RB \<notin> set n \<and> sublist (token n) s)
   \<and> [] \<notin> set (extract_placeholders s)
   \<and> extract_placeholders (LB # RB # r) = extract_placeholders r"
proof -
  have a: "n \<in> set (extract_placeholders s) \<longrightarrow> n \<noteq> [] \<and> RB \<notin> set n \<and> sublist (token n) s"
    using findall_names [of n s] by (simp add: extract_set)
  have b: "[] \<notin> set (extract_placeholders s)"
    using findall_names [of "[]" s] by (auto simp: extract_set)
  have "match_group (RB # r) = None" by (simp add: match_group_None_iff)
  then have "findall (LB # RB # r) = findall r" by simp
  then have c: "extract_placeholders (LB # RB # r) = extract_placeholders r"
    by (simp add: extract_placeholders_def)
  from a b c show ?thesis by blast
qed

theorem extracted_names_wellformed_witness:
  "''Name'' \<in> set (extract_placeholders ''Hi [Name] []'')
   \<and> ''Name'' \<noteq> [] \<and> RB \<notin> set ''Name'' \<and> sublist (token ''Name'') ''Hi [Name] []''"
proof -
  have h: "''Name'' \<in> set (extract_placeholders ''Hi [Name] []'')" by code_simp
  from extracted_names_wellformed [of "''Name''" "''Hi [Name] []''"] h show ?thesis by blast
qed

end
